theory Spec2Isabelle
  imports Complex_Main
begin

section \<open>Firmata analog reader: acquisition loop and band powers\<close>

text \<open>
  A shallow embedding of \<^verbatim>\<open>firmata.py\<close>: the function \<^verbatim>\<open>bandpower\<close> and the
  acquisition loop of \<^verbatim>\<open>main\<close> with its \<^verbatim>\<open>finally\<close> block.

  Conventions of the embedding.
  \<^item> A Python or numpy float is a \<open>real\<close>: comparisons are the source's, rounding is
    not modelled. \<^verbatim>\<open>np.nan\<close> is \<open>None\<close> of a \<open>real option\<close>.
  \<^item> An exception is a value of \<open>py_error\<close>; a function that can raise returns
    \<open>py_error + 'a\<close>, or its state together with a \<open>py_error option\<close>.
  \<^item> The board, the clock and the user are inputs: one \<open>tick\<close> per loop iteration
    holds what \<^verbatim>\<open>ain.read()\<close> returned and the two readings of \<^verbatim>\<open>time.time()\<close>;
    the end of the tick list is the \<^verbatim>\<open>KeyboardInterrupt\<close>, taken between two
    iterations. The pacing \<^verbatim>\<open>time.sleep\<close> only lets time pass, which the next clock
    readings show.
  \<^item> \<^verbatim>\<open>scipy.signal.welch\<close> is a parameter of the model; the figure is a log of the
    frames drawn.
\<close>

datatype py_error = IndexError | ZeroDivisionError

subsection \<open>numpy operations used by the source\<close>

text \<open>
  \<^verbatim>\<open>a[idx]\<close> with a boolean array \<^verbatim>\<open>idx\<close>: the elements of \<^verbatim>\<open>a\<close> at the positions
  where \<^verbatim>\<open>idx\<close> is true; numpy raises IndexError when the lengths differ.
\<close>

definition bool_index :: "'a list \<Rightarrow> bool list \<Rightarrow> py_error + 'a list" where
  "bool_index a idx =
     (if length idx \<noteq> length a then Inl IndexError
      else Inr (map fst (filter snd (zip a idx))))"

text \<open>\<^verbatim>\<open>np.diff(x)\<close>: the differences \<^verbatim>\<open>x[1:] - x[:-1]\<close>.\<close>

definition diff :: "real list \<Rightarrow> real list" where
  "diff x = map (\<lambda>(a, b). b - a) (zip x (tl x))"

text \<open>
  \<^verbatim>\<open>np.trapz(y, x)\<close> for one-dimensional arrays of one length:
  \<^verbatim>\<open>(diff(x) * (y[1:] + y[:-1]) / 2.0).sum()\<close>.
\<close>

definition trapz :: "real list \<Rightarrow> real list \<Rightarrow> real" where
  "trapz y x =
     sum_list (map (\<lambda>(d, (a, b)). d * (a + b) / 2) (zip (diff x) (zip (tl y) (butlast y))))"

text \<open>
  \<^verbatim>\<open>np.searchsorted(a, v)\<close> (side left) is a binary search: with \<^verbatim>\<open>lo = 0\<close> and
  \<^verbatim>\<open>hi = len(a)\<close>, while \<^verbatim>\<open>lo < hi\<close> it halves the interval, going right when
  \<^verbatim>\<open>a[mid] < v\<close>.
\<close>

function bisect_left :: "real list \<Rightarrow> real \<Rightarrow> nat \<Rightarrow> nat \<Rightarrow> nat" where
  "bisect_left a v lo hi =
     (if lo < hi then
        (let mid = lo + (hi - lo) div 2
         in if a ! mid < v then bisect_left a v (mid + 1) hi else bisect_left a v lo mid)
      else lo)"
  by pat_completeness auto
termination
  by (relation "measure (\<lambda>(a, v, lo, hi). hi - lo)") auto

declare bisect_left.simps [simp del]

definition searchsorted :: "real list \<Rightarrow> real \<Rightarrow> nat" where
  "searchsorted a v = bisect_left a v 0 (length a)"

subsection \<open>Band power\<close>

definition BANDS :: "(string \<times> real \<times> real) list" where
  "BANDS =
     [(''delta'', 1 / 2, 4), (''theta'', 4, 8), (''alpha'', 8, 13),
      (''beta'', 13, 30), (''gamma'', 30, 45)]"

definition bandpower :: "real list \<Rightarrow> real list \<Rightarrow> real \<Rightarrow> real \<Rightarrow> py_error + real" where
  "bandpower freqs psd fmin fmax =
     (let idx = map (\<lambda>f. fmin \<le> f \<and> f \<le> fmax) freqs
      in if \<not> list_ex (\<lambda>b. b) idx then Inr 0
         else (case bool_index psd idx of
                 Inl e \<Rightarrow> Inl e
               | Inr y \<Rightarrow> (case bool_index freqs idx of
                            Inl e \<Rightarrow> Inl e
                          | Inr x \<Rightarrow> Inr (trapz y x))))"

text \<open>
  The words of the specification, to compare \<open>bandpower\<close> with: the bins of the PSD
  whose frequency lies in the closed band, and the trapezoidal rule over a list of
  points \<open>(frequency, power)\<close>.
\<close>

definition bins_in_band :: "real list \<Rightarrow> real list \<Rightarrow> real \<Rightarrow> real \<Rightarrow> (real \<times> real) list" where
  "bins_in_band freqs pw fmin fmax =
     filter (\<lambda>(f, p). fmin \<le> f \<and> f \<le> fmax) (zip freqs pw)"

definition trapezoid_rule :: "(real \<times> real) list \<Rightarrow> real" where
  "trapezoid_rule pts =
     (\<Sum>i \<leftarrow> [0 ..< length pts - 1].
        (fst (pts ! Suc i) - fst (pts ! i)) * (snd (pts ! Suc i) + snd (pts ! i)) / 2)"

text \<open>The same rule as a recursion over the points, two neighbours at a time.\<close>

fun trapezoid_rec :: "(real \<times> real) list \<Rightarrow> real" where
  "trapezoid_rec (p # q # r) = (fst q - fst p) * (snd q + snd p) / 2 + trapezoid_rec (q # r)"
| "trapezoid_rec _ = 0"

subsection \<open>Sampling-rate estimates\<close>

text \<open>
  The estimate inside the loop (the \<^verbatim>\<open>if ts[-1] - ts[0] > 0\<close> of the redraw block):
  \<^verbatim>\<open>np.nan\<close> is \<open>None\<close>; indexing an empty list raises.
\<close>

definition rate_estimate :: "real list \<Rightarrow> py_error + real option" where
  "rate_estimate tms =
     (case tms of
        [] \<Rightarrow> Inl IndexError
      | _ \<Rightarrow> if last tms - hd tms > 0
             then Inr (Some (real_of_int (int (length tms) - 1) / (last tms - hd tms)))
             else Inr None)"

text \<open>
  The estimate of the \<^verbatim>\<open>finally\<close> block: \<^verbatim>\<open>if ts: fs = (len(ts) - 1) / (ts[-1] - ts[0])\<close>,
  printed with the sample count. Python's \<^verbatim>\<open>/\<close> raises ZeroDivisionError on a zero
  divisor. Nothing is printed for an empty buffer.
\<close>

definition summary_rate :: "real list \<Rightarrow> py_error + (nat \<times> real) option" where
  "summary_rate tms =
     (case tms of
        [] \<Rightarrow> Inr None
      | _ \<Rightarrow> if last tms - hd tms = 0 then Inl ZeroDivisionError
             else Inr (Some (length tms, real_of_int (int (length tms) - 1) / (last tms - hd tms))))"

subsection \<open>The analysis of one redraw\<close>

text \<open>
  The window slice: \<^verbatim>\<open>w_start = tmax - args.window\<close>,
  \<^verbatim>\<open>idx0 = np.searchsorted(ts, max(0.0, w_start))\<close>, then \<^verbatim>\<open>ys[idx0:]\<close> and
  \<^verbatim>\<open>ts[idx0:]\<close>.
\<close>

definition window_select :: "real \<Rightarrow> real \<Rightarrow> real list \<Rightarrow> real list \<Rightarrow> real list \<times> real list" where
  "window_select tmax win tms vals =
     (let w_start = tmax - win;
          idx0 = searchsorted tms (max 0 w_start)
      in (drop idx0 vals, drop idx0 tms))"

text \<open>
  \<^verbatim>\<open>for j, (_, f1, f2) in enumerate(BANDS): bars[j].set_height(bandpower(f, Pxx, f1, f2))\<close>:
  the heights set so far stay when a later band raises.
\<close>

fun set_heights ::
  "real list \<Rightarrow> real list \<Rightarrow> (string \<times> real \<times> real) list \<Rightarrow> nat \<Rightarrow> real list
   \<Rightarrow> real list \<times> py_error option" where
  "set_heights f Pxx [] j hs = (hs, None)"
| "set_heights f Pxx ((name, f1, f2) # bands) j hs =
     (case bandpower f Pxx f1 f2 of
        Inl e \<Rightarrow> (hs, Some e)
      | Inr p \<Rightarrow> if j < length hs then set_heights f Pxx bands (Suc j) (hs[j := p])
                else (hs, Some IndexError))"

text \<open>
  \<^verbatim>\<open>signal.welch(yw, fs=fsw, nperseg=nperseg)\<close> returns the frequencies and the PSD.
\<close>

type_synonym welch = "real list \<Rightarrow> real \<Rightarrow> nat \<Rightarrow> real list \<times> real list"

text \<open>
  The guarded spectral step: \<^verbatim>\<open>if len(yw) > 16 and tw[-1] - tw[0] > 0\<close>; the
  \<^verbatim>\<open>and\<close> reads \<^verbatim>\<open>tw\<close> only when the first test holds.
\<close>

definition spectral_step ::
  "welch \<Rightarrow> real list \<Rightarrow> real list \<Rightarrow> real list \<Rightarrow> real list \<times> py_error option" where
  "spectral_step w yw tw hs =
     (if length yw > 16 then
        (case tw of
           [] \<Rightarrow> (hs, Some IndexError)
         | _ \<Rightarrow> if last tw - hd tw > 0 then
                  (let fsw = real_of_int (int (length yw) - 1) / (last tw - hd tw);
                       nperseg = min 256 (length yw);
                       (f, Pxx) = w yw fsw nperseg
                   in set_heights f Pxx BANDS 0 hs)
                else (hs, None))
      else (hs, None))"

subsection \<open>The acquisition loop\<close>

record args =
  duration :: real
  target_hz :: real
  window :: real
  csv :: string

record frame =
  drawn_at :: real
  xlim :: "real \<times> real"
  series :: "real list \<times> real list"
  fs_label :: "real option"
  heights :: "real list"

record state =
  ts :: "real list"
  ys :: "real list"
  last_redraw :: real
  bars :: "real list"
  frames :: "frame list"

record tick =
  reading :: "real option"
  t_read :: real
  now :: real

definition init :: state where
  "init = \<lparr>ts = [], ys = [], last_redraw = 0, bars = replicate (length BANDS) 0, frames = []\<rparr>"

text \<open>
  \<^verbatim>\<open>v = ain.read(); if v is not None: ts.append(time.time() - t_start); ys.append(v * 1023.0)\<close>
\<close>

definition append_sample :: "real \<Rightarrow> tick \<Rightarrow> state \<Rightarrow> state" where
  "append_sample t_start k s =
     (case reading k of
        None \<Rightarrow> s
      | Some v \<Rightarrow> s\<lparr>ts := ts s @ [t_read k - t_start], ys := ys s @ [v * 1023]\<rparr>)"

text \<open>
  \<^verbatim>\<open>if args.target_hz > 0: time.sleep(max(0.0, 1.0 / args.target_hz - 0.0005))\<close>:
  the time slept, if any.
\<close>

definition pacing_delay :: "args \<Rightarrow> real option" where
  "pacing_delay a =
     (if target_hz a > 0 then Some (max 0 (1 / target_hz a - 5 / 10000)) else None)"

text \<open>\<^verbatim>\<open>if now - last_redraw > 0.1 and len(ts) > 2\<close>\<close>

definition gate :: "real \<Rightarrow> state \<Rightarrow> bool" where
  "gate t s \<longleftrightarrow> t - last_redraw s > 1 / 10 \<and> length (ts s) > 2"

text \<open>
  The body of the gate: axis limits, the rate estimate for the label, the window slice,
  the spectral step, the draw, and \<^verbatim>\<open>last_redraw = now\<close>. An exception leaves the
  block before the draw.
\<close>

definition redraw :: "welch \<Rightarrow> args \<Rightarrow> real \<Rightarrow> state \<Rightarrow> state \<times> py_error option" where
  "redraw w a t s =
     (case ts s of
        [] \<Rightarrow> (s, Some IndexError)
      | _ \<Rightarrow>
        (let tmax = last (ts s);
             tmin = max 0 (tmax - 10)
         in case rate_estimate (ts s) of
              Inl e \<Rightarrow> (s, Some e)
            | Inr fs \<Rightarrow>
               (let (yw, tw) = window_select tmax (window a) (ts s) (ys s)
                in case spectral_step w yw tw (bars s) of
                     (hs, Some e) \<Rightarrow> (s\<lparr>bars := hs\<rparr>, Some e)
                   | (hs, None) \<Rightarrow>
                      (s\<lparr>bars := hs,
                         frames := frames s @
                           [\<lparr>drawn_at = t, xlim = (tmin, max 10 tmax),
                             series = (ts s, ys s), fs_label = fs, heights = hs\<rparr>],
                         last_redraw := t\<rparr>, None))))"

definition loop_body :: "welch \<Rightarrow> args \<Rightarrow> real \<Rightarrow> tick \<Rightarrow> state \<Rightarrow> state \<times> py_error option" where
  "loop_body w a t_start k s =
     (let s1 = append_sample t_start k s
      in if gate (now k) s1 then redraw w a (now k) s1 else (s1, None))"

text \<open>\<^verbatim>\<open>if args.duration and ts and ts[-1] >= args.duration: break\<close>\<close>

definition duration_reached :: "args \<Rightarrow> state \<Rightarrow> bool" where
  "duration_reached a s \<longleftrightarrow> duration a \<noteq> 0 \<and> ts s \<noteq> [] \<and> last (ts s) \<ge> duration a"

datatype exit = DurationReached | Cancelled | Raised py_error

text \<open>
  \<^verbatim>\<open>while True\<close> over the ticks: the loop leaves by \<^verbatim>\<open>break\<close>, by an exception of the
  body, or by the KeyboardInterrupt that ends the tick list.
\<close>

fun run :: "welch \<Rightarrow> args \<Rightarrow> real \<Rightarrow> tick list \<Rightarrow> state \<Rightarrow> exit \<times> state" where
  "run w a t_start [] s = (Cancelled, s)"
| "run w a t_start (k # ks) s =
     (case loop_body w a t_start k s of
        (s', Some e) \<Rightarrow> (Raised e, s')
      | (s', None) \<Rightarrow>
          if duration_reached a s' then (DurationReached, s') else run w a t_start ks s')"

text \<open>The number of iterations the loop has begun when it leaves.\<close>

fun iterations :: "welch \<Rightarrow> args \<Rightarrow> real \<Rightarrow> tick list \<Rightarrow> state \<Rightarrow> nat" where
  "iterations w a t_start [] s = 0"
| "iterations w a t_start (k # ks) s =
     (case loop_body w a t_start k s of
        (s', Some e) \<Rightarrow> 1
      | (s', None) \<Rightarrow>
          if duration_reached a s' then 1 else Suc (iterations w a t_start ks s'))"

text \<open>The samples that a list of ticks delivers, in order.\<close>

definition acquired :: "real \<Rightarrow> tick list \<Rightarrow> (real \<times> real) list" where
  "acquired t_start ks =
     concat (map (\<lambda>k. case reading k of None \<Rightarrow> [] | Some v \<Rightarrow> [(t_read k - t_start, v * 1023)]) ks)"

subsection \<open>The finally block\<close>

record report =
  exported :: "(string list \<times> (real \<times> real) list) option"
  summary :: "(nat \<times> real) option"
  released :: bool
  raised :: "py_error option"

text \<open>
  The CSV file (header row, then \<^verbatim>\<open>zip(ts, ys)\<close>) when \<^verbatim>\<open>args.csv\<close> is not empty, the
  summary line when \<^verbatim>\<open>ts\<close> is not empty, then \<^verbatim>\<open>board.exit()\<close>. An exception of the
  summary skips the statements after it.
\<close>

definition finalize :: "args \<Rightarrow> state \<Rightarrow> report" where
  "finalize a s =
     (let ex = (if csv a \<noteq> [] then Some ([''t_sec'', ''adc_0_1023''], zip (ts s) (ys s)) else None)
      in case summary_rate (ts s) of
           Inl e \<Rightarrow> \<lparr>exported = ex, summary = None, released = False, raised = Some e\<rparr>
         | Inr r \<Rightarrow> \<lparr>exported = ex, summary = r, released = True, raised = None\<rparr>)"

definition main :: "welch \<Rightarrow> args \<Rightarrow> real \<Rightarrow> tick list \<Rightarrow> exit \<times> report" where
  "main w a t_start ks = (let (why, s) = run w a t_start ks init in (why, finalize a s))"

text \<open>
  The samples up to and with the first one whose timestamp reaches the duration \<open>d\<close>;
  all of them when \<open>d = 0\<close>.
\<close>

definition upto_duration :: "real \<Rightarrow> (real \<times> real) list \<Rightarrow> (real \<times> real) list" where
  "upto_duration d smp =
     (if d = 0 then smp
      else takeWhile (\<lambda>(t, y). t < d) smp @ take 1 (dropWhile (\<lambda>(t, y). t < d) smp))"

text \<open>
  What the throttle keeps true of the frames drawn so far: any two are more than 100 ms
  apart, none is later than \<^verbatim>\<open>last_redraw\<close>, and each shows at least three samples.
\<close>

definition paced :: "state \<Rightarrow> bool" where
  "paced s \<longleftrightarrow>
     sorted_wrt (\<lambda>f g. 1 / 10 < drawn_at g - drawn_at f) (frames s) \<and>
     list_all (\<lambda>f. drawn_at f \<le> last_redraw s) (frames s) \<and>
     list_all (\<lambda>f. 3 \<le> length (fst (series f))) (frames s)"

subsection \<open>A sample run\<close>

text \<open>
  A PSD estimator for the examples: four bins one hertz apart, each of power one.
\<close>

definition example_welch :: welch where
  "example_welch yw fsw nperseg = ([0, 1, 2, 3], [1, 1, 1, 1])"

definition example_args :: args where
  "example_args = \<lparr>duration = 0, target_hz = 100, window = 2, csv = ''out.csv''\<rparr>"

text \<open>
  The loop is entered at clock time 100. Three readings one second apart, a tick
  without a reading, and two readings within the next 110 ms.
\<close>

definition example_ticks :: "tick list" where
  "example_ticks =
     [\<lparr>reading = Some (1 / 2), t_read = 101, now = 101\<rparr>,
      \<lparr>reading = Some 1, t_read = 102, now = 102\<rparr>,
      \<lparr>reading = Some 0, t_read = 103, now = 103\<rparr>,
      \<lparr>reading = None, t_read = 103, now = 10305 / 100\<rparr>,
      \<lparr>reading = Some 1, t_read = 10306 / 100, now = 10308 / 100\<rparr>,
      \<lparr>reading = Some 1, t_read = 10309 / 100, now = 10311 / 100\<rparr>]"

section \<open>Properties of the band power\<close>

lemma trapz_rec: "trapz (map snd pts) (map fst pts) = trapezoid_rec pts"
  by (induction pts rule: trapezoid_rec.induct) (simp_all add: trapz_def diff_def)

lemma rule_rec: "trapezoid_rule pts = trapezoid_rec pts"
proof (induction pts rule: trapezoid_rec.induct)
  case (1 p q r)
  have "[0 ..< Suc (length r)] = 0 # map Suc [0 ..< length r]"
    by (simp add: upt_conv_Cons map_Suc_upt del: upt_Suc)
  with 1 show ?case
    by (simp add: trapezoid_rule_def comp_def del: upt_Suc)
qed (simp_all add: trapezoid_rule_def)

lemma mask_snd:
  "length a = length fs \<Longrightarrow>
   map fst (filter snd (zip a (map P fs))) = map snd (filter (\<lambda>(f, p). P f) (zip fs a))"
  by (induction a fs rule: list_induct2) auto

lemma mask_fst:
  "length a = length fs \<Longrightarrow>
   map fst (filter snd (zip fs (map P fs))) = map fst (filter (\<lambda>(f, p). P f) (zip fs a))"
  by (induction a fs rule: list_induct2) auto

lemma any_mask: "list_ex (\<lambda>b. b) (map P fs) \<longleftrightarrow> filter P fs \<noteq> []"
  by (induction fs) auto

lemma filter_zip_fst:
  "length a = length fs \<Longrightarrow> map fst (filter (\<lambda>(f, p). P f) (zip fs a)) = filter P fs"
  by (induction a fs rule: list_induct2) auto

lemma bins_fst:
  "length psd = length freqs \<Longrightarrow>
   map fst (bins_in_band freqs psd fmin fmax) = filter (\<lambda>f. fmin \<le> f \<and> f \<le> fmax) freqs"
  unfolding bins_in_band_def by (rule filter_zip_fst)

lemma bandpower_bins:
  assumes "length psd = length freqs"
  shows "bandpower freqs psd fmin fmax =
     Inr (if bins_in_band freqs psd fmin fmax = [] then 0
          else trapezoid_rec (bins_in_band freqs psd fmin fmax))"
proof -
  let ?P = "\<lambda>f. fmin \<le> f \<and> f \<le> fmax"
  let ?B = "bins_in_band freqs psd fmin fmax"
  have e: "(?B = []) \<longleftrightarrow> \<not> list_ex (\<lambda>b. b) (map ?P freqs)"
    using bins_fst [OF assms, of fmin fmax] unfolding any_mask
    by (metis (no_types, lifting) map_is_Nil_conv)
  have y: "bool_index psd (map ?P freqs) = Inr (map snd ?B)"
    using mask_snd [OF assms, of ?P] by (simp add: bool_index_def bins_in_band_def assms)
  have x: "bool_index freqs (map ?P freqs) = Inr (map fst ?B)"
    using mask_fst [OF assms, of ?P] by (simp add: bool_index_def bins_in_band_def)
  show ?thesis
    unfolding bandpower_def Let_def y x using e by (simp add: trapz_rec)
qed

lemma trapezoid_rec_nonneg:
  "sorted (map fst pts) \<Longrightarrow> list_all (\<lambda>q. 0 \<le> snd q) pts \<Longrightarrow> 0 \<le> trapezoid_rec pts"
  by (induction pts rule: trapezoid_rec.induct) simp_all

lemma bins_snd_nonneg:
  "list_all (\<lambda>p. 0 \<le> p) psd \<Longrightarrow> list_all (\<lambda>q. 0 \<le> snd q) (bins_in_band freqs psd fmin fmax)"
  unfolding bins_in_band_def list_all_iff by (auto dest: set_zip_rightD)

text \<open>
  Claim C6. For a PSD whose two arrays have one length, \<open>bandpower\<close> selects exactly
  the bins whose frequency lies in the closed band \<open>[fmin, fmax]\<close>; with no such bin it
  returns \<open>0\<close>, and otherwise the trapezoidal integral of the power over the
  frequencies of the selected bins. The result is a function of the four arguments
  alone: the source reads no other state and changes none.
\<close>

theorem bandpower_selects_and_integrates:
  assumes "length psd = length freqs"
  shows "bandpower freqs psd fmin fmax =
           Inr (if bins_in_band freqs psd fmin fmax = [] then 0
                else trapezoid_rule (bins_in_band freqs psd fmin fmax))"
  using bandpower_bins [OF assms] by (simp add: rule_rec)

theorem bandpower_selects_and_integrates_witness:
  "length [1, 2, 3, 4 :: real] = length [0, 1, 2, 3 :: real] \<and>
   bandpower [0, 1, 2, 3] [1, 2, 3, 4] 1 3 = Inr (trapezoid_rule [(1, 2), (2, 3), (3, 4)]) \<and>
   trapezoid_rule [(1, 2), (2, 3), (3, 4)] = 6 \<and>
   bandpower [0, 1, 2, 3] [1, 2, 3, 4] 10 30 = Inr 0"
  using bandpower_selects_and_integrates [of "[1, 2, 3, 4]" "[0, 1, 2, 3]" 1 3]
    bandpower_selects_and_integrates [of "[1, 2, 3, 4]" "[0, 1, 2, 3]" 10 30]
  by (simp add: bins_in_band_def trapezoid_rule_def)

text \<open>
  Claim C9. For a PSD with ascending frequencies and non-negative power values, the
  band power of every band is a number, and it is non-negative.
\<close>

theorem bandpower_nonneg:
  assumes "length psd = length freqs" and "sorted freqs" and "list_all (\<lambda>p. 0 \<le> p) psd"
  shows "case bandpower freqs psd fmin fmax of Inl e \<Rightarrow> False | Inr r \<Rightarrow> 0 \<le> r"
proof -
  have "sorted (map fst (bins_in_band freqs psd fmin fmax))"
    using assms(2) by (simp add: bins_fst [OF assms(1)] sorted_wrt_filter)
  then have "0 \<le> trapezoid_rec (bins_in_band freqs psd fmin fmax)"
    using bins_snd_nonneg [OF assms(3)] by (rule trapezoid_rec_nonneg)
  then show ?thesis by (simp add: bandpower_bins [OF assms(1)])
qed

theorem bandpower_nonneg_witness:
  "length [1, 0, 3, 4 :: real] = length [0, 1, 2, 3 :: real] \<and> sorted [0, 1, 2, 3 :: real] \<and>
   list_all (\<lambda>p. 0 \<le> p) [1, 0, 3, 4 :: real] \<and>
   (case bandpower [0, 1, 2, 3] [1, 0, 3, 4] 1 3 of Inl e \<Rightarrow> False | Inr r \<Rightarrow> 0 \<le> r)"
  using bandpower_nonneg [of "[1, 0, 3, 4]" "[0, 1, 2, 3]" 1 3] by simp

text \<open>
  Claim C10. When exactly one bin of the PSD lies in the band, \<open>bandpower\<close> returns
  \<open>0\<close> whatever the power of that bin: the trapezoidal rule over one point is the empty
  sum.
\<close>

theorem bandpower_single_bin:
  assumes "length psd = length freqs"
    and "length (filter (\<lambda>f. fmin \<le> f \<and> f \<le> fmax) freqs) = 1"
  shows "bandpower freqs psd fmin fmax = Inr 0"
proof -
  have "length (bins_in_band freqs psd fmin fmax) = 1"
    using assms(2) bins_fst [OF assms(1), of fmin fmax] by (metis length_map)
  then obtain q where "bins_in_band freqs psd fmin fmax = [q]"
    by (cases "bins_in_band freqs psd fmin fmax") auto
  then show ?thesis by (simp add: bandpower_bins [OF assms(1)])
qed

theorem bandpower_single_bin_witness:
  "length [5, 7, 9 :: real] = length [0, 10, 20 :: real] \<and>
   length (filter (\<lambda>f. 8 \<le> f \<and> f \<le> 13) [0, 10, 20 :: real]) = 1 \<and>
   bandpower [0, 10, 20] [5, 7, 9] 8 13 = Inr 0"
  using bandpower_single_bin [of "[5, 7, 9]" "[0, 10, 20]" 8 13] by simp

section \<open>Properties of the rate estimates\<close>

lemma strict_hd_less_last:
  assumes "2 \<le> length tms" and "sorted_wrt (<) tms"
  shows "hd tms < last (tms :: real list)"
proof -
  have ne: "tms \<noteq> []" using assms(1) by auto
  have "tms ! 0 < tms ! (length tms - 1)"
    using assms by (intro sorted_wrt_nth_less [where P = "(<)"]) auto
  then show ?thesis by (simp add: hd_conv_nth [OF ne] last_conv_nth [OF ne])
qed

text \<open>
  Claim C4. For a buffer of \<open>n \<ge> 2\<close> samples with strictly increasing timestamps,
  the rate estimate of the loop and the one of the summary are both exactly
  \<open>(n - 1) / (t_last - t_first)\<close>; 50 samples that span one second give 49.
\<close>

theorem rate_estimate_exact:
  assumes "2 \<le> length tms" and "sorted_wrt (<) tms"
  shows "rate_estimate tms = Inr (Some ((real (length tms) - 1) / (last tms - hd tms))) \<and>
         summary_rate tms = Inr (Some (length tms, (real (length tms) - 1) / (last tms - hd tms))) \<and>
         (length tms = 50 \<and> last tms - hd tms = 1 \<longrightarrow> rate_estimate tms = Inr (Some 49))"
proof -
  have ne: "tms \<noteq> []" using assms(1) by auto
  have "hd tms < last tms" using assms by (rule strict_hd_less_last)
  then show ?thesis using ne
    by (auto simp: rate_estimate_def summary_rate_def split: list.splits)
qed

theorem rate_estimate_exact_witness:
  "2 \<le> length (map (\<lambda>i. real i / 49) [0 ..< 50]) \<and>
   sorted_wrt (<) (map (\<lambda>i. real i / 49) [0 ..< 50]) \<and>
   length (map (\<lambda>i. real i / 49) [0 ..< 50]) = 50 \<and>
   last (map (\<lambda>i. real i / 49) [0 ..< 50]) - hd (map (\<lambda>i. real i / 49) [0 ..< 50]) = 1 \<and>
   rate_estimate (map (\<lambda>i. real i / 49) [0 ..< 50]) = Inr (Some 49) \<and>
   summary_rate (map (\<lambda>i. real i / 49) [0 ..< 50]) = Inr (Some (50, 49))"
proof -
  define t where "t = map (\<lambda>i. real i / 49) [0 ..< 50]"
  have a: "2 \<le> length t" and d: "length t = 50" by (simp_all add: t_def)
  have "sorted_wrt (\<lambda>x y. real x / 49 < real y / 49) [0 ..< 50]"
    by (rule sorted_wrt_mono_rel [OF _ sorted_wrt_upt]) (simp add: divide_strict_right_mono)
  then have b: "sorted_wrt (<) t" by (simp only: t_def sorted_wrt_map)
  have ne: "[0 ..< 50 :: nat] \<noteq> []" by simp
  have "last t = real (last [0 ..< 50]) / 49" and "hd t = real (hd [0 ..< 50]) / 49"
    unfolding t_def by (rule last_map [OF ne], rule hd_map [OF ne])
  then have "last t = 1" and "hd t = 0" by simp_all
  then have c: "last t - hd t = 1" by simp
  have "rate_estimate t = Inr (Some 49) \<and> summary_rate t = Inr (Some (50, 49))"
    using rate_estimate_exact [OF a b] c d by simp
  then show ?thesis using a b c d unfolding t_def by blast
qed

text \<open>
  Claim C1. The estimate of the loop never raises on a buffer that passed the gate, but
  the estimate of the summary divides without the test on the span: a run that is
  cancelled after its first sample has a span of zero and raises ZeroDivisionError in
  the \<^verbatim>\<open>finally\<close> block, after the export and before \<^verbatim>\<open>board.exit()\<close>.
\<close>

theorem summary_rate_single_sample_raises:
  "summary_rate [1] = Inl ZeroDivisionError \<and>
   rate_estimate [1] = Inr None \<and>
   main example_welch \<lparr>duration = 0, target_hz = 100, window = 2, csv = ''out.csv''\<rparr> 0
     [\<lparr>reading = Some (1 / 2), t_read = 1, now = 1\<rparr>] =
   (Cancelled,
    \<lparr>exported = Some ([''t_sec'', ''adc_0_1023''], [(1, 1023 / 2)]),
     summary = None, released = False, raised = Some ZeroDivisionError\<rparr>)"
  by (simp add: summary_rate_def rate_estimate_def main_def loop_body_def append_sample_def
      gate_def duration_reached_def finalize_def init_def)

section \<open>Properties of the window slice\<close>

lemma bisect_left_bounds:
  assumes "sorted a" and "lo \<le> hi" and "hi \<le> length a"
    and "\<forall>i<lo. a ! i < v" and "\<forall>i. hi \<le> i \<and> i < length a \<longrightarrow> v \<le> a ! i"
  shows "lo \<le> bisect_left a v lo hi \<and> bisect_left a v lo hi \<le> hi \<and>
         (\<forall>i<bisect_left a v lo hi. a ! i < v) \<and>
         (\<forall>i. bisect_left a v lo hi \<le> i \<and> i < length a \<longrightarrow> v \<le> a ! i)"
  using assms
proof (induction a v lo hi rule: bisect_left.induct)
  case (1 a v lo hi)
  show ?case
  proof (cases "lo < hi")
    case False
    then have "bisect_left a v lo hi = lo" by (subst bisect_left.simps) simp
    with False "1.prems" show ?thesis by auto
  next
    case True
    define mid where "mid = lo + (hi - lo) div 2"
    have m: "lo \<le> mid" "mid < hi" using True by (auto simp: mid_def)
    show ?thesis
    proof (cases "a ! mid < v")
      case lt: True
      have below: "\<forall>i<mid + 1. a ! i < v"
      proof (intro allI impI)
        fix i assume "i < mid + 1"
        then have "a ! i \<le> a ! mid"
          using "1.prems"(1,3) m by (intro sorted_nth_mono) auto
        with lt show "a ! i < v" by simp
      qed
      have "lo \<le> bisect_left a v (mid + 1) hi \<and> bisect_left a v (mid + 1) hi \<le> hi \<and>
            (\<forall>i<bisect_left a v (mid + 1) hi. a ! i < v) \<and>
            (\<forall>i. bisect_left a v (mid + 1) hi \<le> i \<and> i < length a \<longrightarrow> v \<le> a ! i)"
        using "1.IH"(1) [OF True mid_def lt "1.prems"(1) _ "1.prems"(3) below "1.prems"(5)] m
        by auto
      then show ?thesis
        using True lt by (simp add: bisect_left.simps [of a v lo hi] mid_def [symmetric] Let_def)
    next
      case ge: False
      have above: "\<forall>i. mid \<le> i \<and> i < length a \<longrightarrow> v \<le> a ! i"
      proof (intro allI impI)
        fix i assume "mid \<le> i \<and> i < length a"
        then have "a ! mid \<le> a ! i"
          using "1.prems"(1) by (intro sorted_nth_mono) auto
        with ge show "v \<le> a ! i" by simp
      qed
      have "lo \<le> bisect_left a v lo mid \<and> bisect_left a v lo mid \<le> mid \<and>
            (\<forall>i<bisect_left a v lo mid. a ! i < v) \<and>
            (\<forall>i. bisect_left a v lo mid \<le> i \<and> i < length a \<longrightarrow> v \<le> a ! i)"
        using "1.IH"(2) [OF True mid_def ge "1.prems"(1) m(1) _ "1.prems"(4) above] m "1.prems"(3)
        by auto
      then show ?thesis
        using True ge m by (simp add: bisect_left.simps [of a v lo hi] mid_def [symmetric] Let_def)
    qed
  qed
qed

lemma searchsorted_split:
  assumes "sorted a"
  shows "searchsorted a v \<le> length a \<and>
         (\<forall>x\<in>set (take (searchsorted a v) a). x < v) \<and>
         (\<forall>x\<in>set (drop (searchsorted a v) a). v \<le> x)"
proof -
  let ?r = "searchsorted a v"
  have b: "?r \<le> length a \<and> (\<forall>i<?r. a ! i < v) \<and> (\<forall>i. ?r \<le> i \<and> i < length a \<longrightarrow> v \<le> a ! i)"
    using bisect_left_bounds [of a 0 "length a" v] assms by (simp add: searchsorted_def)
  have "\<forall>x\<in>set (take ?r a). x < v"
    using b by (auto simp: in_set_conv_nth)
  moreover have "\<forall>x\<in>set (drop ?r a). v \<le> x"
    using b by (auto simp: in_set_conv_nth)
  ultimately show ?thesis using b by blast
qed

lemma drop_is_filter:
  assumes "\<forall>x\<in>set (take r xs). \<not> P x" and "\<forall>x\<in>set (drop r xs). P x"
  shows "drop r xs = filter P xs"
proof -
  have "filter P xs = filter P (take r xs) @ filter P (drop r xs)"
    by (metis append_take_drop_id filter_append)
  also have "\<dots> = drop r xs"
    using assms by (simp add: filter_empty_conv filter_id_conv)
  finally show ?thesis by simp
qed

lemma searchsorted_drop:
  assumes "sorted tms"
  shows "drop (searchsorted tms v) tms = filter (\<lambda>t. v \<le> t) tms"
  using searchsorted_split [OF assms, of v]
  by (intro drop_is_filter) (auto simp: not_le)

lemma searchsorted_drop_zip:
  assumes "sorted tms"
  shows "zip (drop (searchsorted tms v) tms) (drop (searchsorted tms v) vals) =
         filter (\<lambda>(t, y). v \<le> t) (zip tms vals)"
proof -
  let ?r = "searchsorted tms v"
  have "zip (drop ?r tms) (drop ?r vals) = drop ?r (zip tms vals)"
    by (simp add: drop_zip)
  also have "\<dots> = filter (\<lambda>(t, y). v \<le> t) (zip tms vals)"
  proof (rule drop_is_filter)
    show "\<forall>x\<in>set (take ?r (zip tms vals)). \<not> (case x of (t, y) \<Rightarrow> v \<le> t)"
      using searchsorted_split [OF assms, of v]
      by (auto simp: take_zip not_le dest!: set_zip_leftD)
    show "\<forall>x\<in>set (drop ?r (zip tms vals)). case x of (t, y) \<Rightarrow> v \<le> t"
      using searchsorted_split [OF assms, of v]
      by (auto simp: drop_zip dest!: set_zip_leftD)
  qed
  finally show ?thesis .
qed

text \<open>
  Claim C3, as the code has it. The search key is \<^verbatim>\<open>max(0.0, w_start)\<close>, so the slice
  is the samples with a timestamp of at least \<open>t_last - W\<close> when no timestamp is
  negative. Then, for ascending timestamps, the slice is a suffix of the buffer, made of
  exactly the samples within the bound, values and timestamps cut at the same index;
  empty lists give an empty slice.
\<close>

theorem window_select_suffix:
  assumes "sorted tms" and "list_all (\<lambda>t. 0 \<le> t) tms" and "length vals = length tms"
  shows "(case window_select (last tms) W tms vals of
            (yw, tw) \<Rightarrow>
              tw = filter (\<lambda>t. last tms - W \<le> t) tms \<and>
              zip tw yw = filter (\<lambda>(t, y). last tms - W \<le> t) (zip tms vals) \<and>
              length yw = length tw \<and>
              tw = drop (length tms - length tw) tms \<and>
              yw = drop (length vals - length yw) vals) \<and>
         window_select tmax W [] [] = ([], [])"
proof -
  let ?v = "max 0 (last tms - W)"
  let ?r = "searchsorted tms ?v"
  have nonneg: "\<And>t. t \<in> set tms \<Longrightarrow> 0 \<le> t"
    using assms(2) by (simp add: list_all_iff)
  have le: "?r \<le> length tms"
    using searchsorted_split [OF assms(1)] by blast
  have "drop ?r tms = filter (\<lambda>t. ?v \<le> t) tms"
    by (rule searchsorted_drop [OF assms(1)])
  also have "\<dots> = filter (\<lambda>t. last tms - W \<le> t) tms"
    by (rule filter_cong) (use nonneg in auto)
  finally have tw: "drop ?r tms = filter (\<lambda>t. last tms - W \<le> t) tms" .
  have "zip (drop ?r tms) (drop ?r vals) = filter (\<lambda>(t, y). ?v \<le> t) (zip tms vals)"
    by (rule searchsorted_drop_zip [OF assms(1)])
  also have "\<dots> = filter (\<lambda>(t, y). last tms - W \<le> t) (zip tms vals)"
    by (rule filter_cong) (use nonneg in \<open>auto dest!: set_zip_leftD\<close>)
  finally have z: "zip (drop ?r tms) (drop ?r vals) =
      filter (\<lambda>(t, y). last tms - W \<le> t) (zip tms vals)" .
  have len: "length tms - length (drop ?r tms) = ?r" "length vals - length (drop ?r vals) = ?r"
    using le assms(3) by simp_all
  have suffix: "drop ?r tms = drop (length tms - length (drop ?r tms)) tms"
    "drop ?r vals = drop (length vals - length (drop ?r vals)) vals"
    by (simp_all only: len)
  have same: "length (drop ?r vals) = length (drop ?r tms)"
    using assms(3) by simp
  have sel: "window_select (last tms) W tms vals = (drop ?r vals, drop ?r tms)"
    by (simp add: window_select_def Let_def)
  have empty: "window_select tmax W [] [] = ([], [])"
    by (simp add: window_select_def)
  show ?thesis
    unfolding sel prod.case using tw z same suffix empty by blast
qed

theorem window_select_suffix_witness:
  "sorted [0, 1, 2, 3 :: real] \<and> list_all (\<lambda>t. 0 \<le> t) [0, 1, 2, 3 :: real] \<and>
   length [10, 11, 12, 13 :: real] = length [0, 1, 2, 3 :: real] \<and>
   window_select 3 2 [0, 1, 2, 3] [10, 11, 12, 13] = ([11, 12, 13], [1, 2, 3]) \<and>
   window_select 3 2 [] [] = ([], [])"
proof -
  have w: "window_select 3 2 [0, 1, 2, 3] [10, 11, 12, 13] = ([11, 12, 13], [1, 2, 3])"
    by (simp add: window_select_def searchsorted_def bisect_left.simps Let_def)
  show ?thesis
    using window_select_suffix [of "[0, 1, 2, 3]" "[10, 11, 12, 13]" 2 3] w by simp
qed

text \<open>
  Claim C3 as stated fails on an ascending buffer with negative timestamps: both
  samples lie within five seconds of the last one, and the slice is empty.
\<close>

theorem window_select_negative_counterexample:
  "sorted [- 2, - 1 :: real] \<and> last [- 2, - 1 :: real] - 5 \<le> - 2 \<and>
   window_select (last [- 2, - 1]) 5 [- 2, - 1] [7, 8] = ([], [])"
  by (simp add: window_select_def searchsorted_def bisect_left.simps Let_def)

section \<open>Properties of one iteration\<close>

lemma set_heights_length: "length (fst (set_heights f Pxx bands j hs)) = length hs"
  by (induction f Pxx bands j hs rule: set_heights.induct) (auto split: sum.splits)

lemma set_heights_ok:
  "length Pxx = length f \<Longrightarrow> j + length bands \<le> length hs \<Longrightarrow>
   snd (set_heights f Pxx bands j hs) = None"
  by (induction f Pxx bands j hs rule: set_heights.induct)
    (auto simp: bandpower_bins split: sum.splits)

lemma spectral_step_length: "length (fst (spectral_step w yw tw hs)) = length hs"
  by (auto simp: spectral_step_def Let_def set_heights_length split: list.splits prod.splits)

lemma spectral_step_ok:
  assumes "\<And>yw fsw n. length (snd (w yw fsw n)) = length (fst (w yw fsw n))"
    and "length yw = length tw" and "length hs = length BANDS"
  shows "snd (spectral_step w yw tw hs) = None"
proof -
  have "snd (set_heights f Pxx BANDS 0 hs) = None" if "w y r n = (f, Pxx)" for y r n f Pxx
    using assms(1) [of y r n] assms(3) that by (intro set_heights_ok) auto
  then show ?thesis
    using assms(2) by (auto simp: spectral_step_def Let_def split: list.splits prod.splits)
qed

lemma redraw_buffer: "ts (fst (redraw w a t s)) = ts s \<and> ys (fst (redraw w a t s)) = ys s"
  by (auto simp: redraw_def Let_def split: list.splits sum.splits prod.splits option.splits)

lemma loop_body_buffer:
  "ts (fst (loop_body w a t0 k s)) = ts (append_sample t0 k s) \<and>
   ys (fst (loop_body w a t0 k s)) = ys (append_sample t0 k s)"
  by (simp add: loop_body_def Let_def redraw_buffer)

lemma redraw_bars_length: "length (bars (fst (redraw w a t s))) = length (bars s)"
  using spectral_step_length
  by (auto simp: redraw_def Let_def split: list.splits sum.splits prod.splits option.splits)
    (metis fst_conv)+

lemma loop_body_bars_length: "length (bars (fst (loop_body w a t0 k s))) = length (bars s)"
  by (simp add: loop_body_def Let_def redraw_bars_length append_sample_def split: option.splits)

lemma window_select_lengths:
  "length vals = length tms \<Longrightarrow> window_select tmax win tms vals = (yw, tw) \<Longrightarrow>
   length yw = length tw"
  by (auto simp: window_select_def Let_def)

lemma redraw_ok:
  assumes "\<And>yw fsw n. length (snd (w yw fsw n)) = length (fst (w yw fsw n))"
    and "length (ys s) = length (ts s)" and "length (bars s) = length BANDS" and "ts s \<noteq> []"
  shows "snd (redraw w a t s) = None"
proof -
  obtain yw tw where sel: "window_select (last (ts s)) (window a) (ts s) (ys s) = (yw, tw)"
    by (cases "window_select (last (ts s)) (window a) (ts s) (ys s)")
  have "length yw = length tw"
    using assms(2) sel by (rule window_select_lengths)
  then have "snd (spectral_step w yw tw (bars s)) = None"
    using assms(1,3) by (intro spectral_step_ok) auto
  then show ?thesis
    using assms(4) sel
    by (auto simp: redraw_def Let_def rate_estimate_def split: list.splits prod.splits option.splits)
qed

lemma append_sample_lengths:
  "length (ys s) = length (ts s) \<Longrightarrow>
   length (ys (append_sample t0 k s)) = length (ts (append_sample t0 k s))"
  by (simp add: append_sample_def split: option.splits)

lemma append_sample_bars: "bars (append_sample t0 k s) = bars s"
  by (simp add: append_sample_def split: option.splits)

lemma loop_body_ok:
  assumes "\<And>yw fsw n. length (snd (w yw fsw n)) = length (fst (w yw fsw n))"
    and "length (ys s) = length (ts s)" and "length (bars s) = length BANDS"
  shows "snd (loop_body w a t0 k s) = None"
proof (cases "gate (now k) (append_sample t0 k s)")
  case True
  then have "ts (append_sample t0 k s) \<noteq> []" by (auto simp: gate_def)
  then have "snd (redraw w a (now k) (append_sample t0 k s)) = None"
    using assms by (intro redraw_ok) (simp_all add: append_sample_lengths append_sample_bars)
  with True show ?thesis by (simp add: loop_body_def)
next
  case False
  then show ?thesis by (simp add: loop_body_def)
qed

lemma loop_body_lengths:
  "length (ys s) = length (ts s) \<Longrightarrow>
   length (ys (fst (loop_body w a t0 k s))) = length (ts (fst (loop_body w a t0 k s)))"
  by (simp add: loop_body_buffer append_sample_lengths)

text \<open>
  Claim C5. In a redraw, let \<open>(yw, tw)\<close> be the window slice. When the slice has 16 or
  fewer samples, or its time span is not positive, the spectral step is skipped: the
  bar heights stay as they were, nothing is raised, and the frame drawn shows the
  earlier heights. When the slice has more than 16 samples and a positive span, the
  heights are set from the PSD that \<^verbatim>\<open>welch\<close> computes from \<open>yw\<close> at the rate
  \<open>(n - 1) / span\<close> with a segment length of \<open>min 256 n\<close>.
\<close>

theorem spectral_step_guarded:
  assumes "window_select (last (ts s)) (window a) (ts s) (ys s) = (yw, tw)"
    and "ts s \<noteq> []" and "length (ys s) = length (ts s)"
  shows "if 16 < length yw \<and> 0 < last tw - hd tw
         then (bars (fst (redraw w a t s)), snd (redraw w a t s)) =
                (case w yw (real (length yw - 1) / (last tw - hd tw)) (min 256 (length yw)) of
                   (f, Pxx) \<Rightarrow> set_heights f Pxx BANDS 0 (bars s))
         else bars (fst (redraw w a t s)) = bars s \<and> snd (redraw w a t s) = None \<and>
              heights (last (frames (fst (redraw w a t s)))) = bars s"
proof -
  have len: "length yw = length tw"
    using assms(3,1) by (rule window_select_lengths)
  have "\<exists>fs. rate_estimate (ts s) = Inr fs"
    using assms(2) by (cases "ts s") (simp_all add: rate_estimate_def)
  then obtain fs where fs: "rate_estimate (ts s) = Inr fs" ..
  have rd: "redraw w a t s =
      (case spectral_step w yw tw (bars s) of
         (hs, Some e) \<Rightarrow> (s\<lparr>bars := hs\<rparr>, Some e)
       | (hs, None) \<Rightarrow>
           (s\<lparr>bars := hs,
              frames := frames s @
                [\<lparr>drawn_at = t, xlim = (max 0 (last (ts s) - 10), max 10 (last (ts s))),
                  series = (ts s, ys s), fs_label = fs, heights = hs\<rparr>],
              last_redraw := t\<rparr>, None))"
  proof -
    have c: "\<And>A B. (case ts s of [] \<Rightarrow> A | x # xs \<Rightarrow> B) = B"
      using assms(2) by (cases "ts s") simp_all
    show ?thesis
      unfolding redraw_def c Let_def fs assms(1) by simp
  qed
  show ?thesis
  proof (cases "16 < length yw \<and> 0 < last tw - hd tw")
    case True
    then have ne: "tw \<noteq> []" using len by auto
    have n: "real_of_int (int (length yw) - 1) = real (length yw - 1)"
      using True by (simp add: of_nat_diff)
    have "spectral_step w yw tw (bars s) =
        (case w yw (real (length yw - 1) / (last tw - hd tw)) (min 256 (length yw)) of
           (f, Pxx) \<Rightarrow> set_heights f Pxx BANDS 0 (bars s))"
      using True ne by (simp add: spectral_step_def Let_def n split: list.splits)
    then show ?thesis
      unfolding if_P [OF True] by (simp add: rd split: prod.splits option.splits)
  next
    case False
    then have "spectral_step w yw tw (bars s) = (bars s, None)"
      using len by (auto simp: spectral_step_def split: list.splits)
    then show ?thesis
      unfolding if_not_P [OF False] by (simp add: rd)
  qed
qed

theorem spectral_step_guarded_witness:
  "window_select (last [1, 2, 3]) 2 [1, 2, 3] [5, 6, 7] = ([5, 6, 7], [1, 2, 3]) \<and>
   bars (fst (redraw example_welch example_args 103 (init\<lparr>ts := [1, 2, 3], ys := [5, 6, 7]\<rparr>))) =
     [0, 0, 0, 0, 0] \<and>
   window_select (last [1, 2, 3, 4, 5, 6, 7, 8, 9, 10, 11, 12, 13, 14, 15, 16, 17]) 20
     [1, 2, 3, 4, 5, 6, 7, 8, 9, 10, 11, 12, 13, 14, 15, 16, 17]
     [1, 2, 3, 4, 5, 6, 7, 8, 9, 10, 11, 12, 13, 14, 15, 16, 17] =
     ([1, 2, 3, 4, 5, 6, 7, 8, 9, 10, 11, 12, 13, 14, 15, 16, 17],
      [1, 2, 3, 4, 5, 6, 7, 8, 9, 10, 11, 12, 13, 14, 15, 16, 17]) \<and>
   (bars (fst (redraw example_welch (example_args\<lparr>window := 20\<rparr>) 200
      (init\<lparr>ts := [1, 2, 3, 4, 5, 6, 7, 8, 9, 10, 11, 12, 13, 14, 15, 16, 17],
            ys := [1, 2, 3, 4, 5, 6, 7, 8, 9, 10, 11, 12, 13, 14, 15, 16, 17]\<rparr>))),
    snd (redraw example_welch (example_args\<lparr>window := 20\<rparr>) 200
      (init\<lparr>ts := [1, 2, 3, 4, 5, 6, 7, 8, 9, 10, 11, 12, 13, 14, 15, 16, 17],
            ys := [1, 2, 3, 4, 5, 6, 7, 8, 9, 10, 11, 12, 13, 14, 15, 16, 17]\<rparr>))) =
   ([2, 0, 0, 0, 0], None)"
proof -
  let ?s = "init\<lparr>ts := [1, 2, 3], ys := [5, 6, 7]\<rparr>"
  let ?l = "[1, 2, 3, 4, 5, 6, 7, 8, 9, 10, 11, 12, 13, 14, 15, 16, 17 :: real]"
  let ?u = "init\<lparr>ts := ?l, ys := ?l\<rparr>"
  have a: "window_select (last (ts ?s)) (window example_args) (ts ?s) (ys ?s) =
      ([5, 6, 7], [1, 2, 3])"
    by (simp add: window_select_def searchsorted_def bisect_left.simps Let_def example_args_def)
  have b: "window_select (last (ts ?u)) (window (example_args\<lparr>window := 20\<rparr>)) (ts ?u) (ys ?u) =
      (?l, ?l)"
    by (simp add: window_select_def searchsorted_def bisect_left.simps Let_def)
  have "bars (fst (redraw example_welch example_args 103 ?s)) = [0, 0, 0, 0, 0]"
    using spectral_step_guarded [OF a, of example_welch 103]
    by (simp add: init_def BANDS_def)
  moreover have "(bars (fst (redraw example_welch (example_args\<lparr>window := 20\<rparr>) 200 ?u)),
      snd (redraw example_welch (example_args\<lparr>window := 20\<rparr>) 200 ?u)) =
      ([2, 0, 0, 0, 0], None)"
    using spectral_step_guarded [OF b, of example_welch 200]
    by (simp add: init_def BANDS_def example_welch_def bandpower_def bool_index_def
        trapz_def diff_def)
  ultimately show ?thesis
    using a b by (simp add: example_args_def)
qed

section \<open>Properties of a run\<close>

lemma acquired_Cons:
  "acquired t0 (k # ks) =
     (case reading k of None \<Rightarrow> [] | Some v \<Rightarrow> [(t_read k - t0, v * 1023)]) @ acquired t0 ks"
  by (simp add: acquired_def)

lemma acquired_Nil: "acquired t0 [] = []"
  by (simp add: acquired_def)

lemma append_sample_acquired:
  "ts (append_sample t0 k s) = ts s @ map fst (acquired t0 [k]) \<and>
   ys (append_sample t0 k s) = ys s @ map snd (acquired t0 [k])"
  by (simp add: append_sample_def acquired_def split: option.splits)

lemma run_buffer:
  "ts (snd (run w a t0 ks s)) = ts s @ map fst (acquired t0 (take (iterations w a t0 ks s) ks)) \<and>
   ys (snd (run w a t0 ks s)) = ys s @ map snd (acquired t0 (take (iterations w a t0 ks s) ks))"
proof (induction ks arbitrary: s)
  case Nil
  show ?case by (simp add: acquired_Nil)
next
  case (Cons k ks)
  obtain s1 e where b: "loop_body w a t0 k s = (s1, e)"
    by (cases "loop_body w a t0 k s")
  define smp where "smp = acquired t0 [k]"
  have s1: "ts s1 = ts s @ map fst smp" "ys s1 = ys s @ map snd smp"
    using loop_body_buffer [of w a t0 k s] append_sample_acquired [of t0 k s] b
    by (simp_all add: smp_def)
  have one: "acquired t0 (k # rest) = smp @ acquired t0 rest" for rest
    by (simp add: acquired_def smp_def)
  show ?case
  proof (cases "e = None \<and> \<not> duration_reached a s1")
    case True
    then show ?thesis
      using b s1 Cons.IH [of s1] by (simp add: one)
  next
    case False
    then show ?thesis
      using b s1 by (auto simp: acquired_Nil one split: option.splits)
  qed
qed

lemma run_init_rows:
  "zip (ts (snd (run w a t0 ks init))) (ys (snd (run w a t0 ks init))) =
   acquired t0 (take (iterations w a t0 ks init) ks)"
  using run_buffer [of w a t0 ks init] by (simp add: init_def zip_map_fst_snd)

text \<open>
  Claim C8. However the loop is left (by \<^verbatim>\<open>break\<close>, by the interrupt, or by an
  exception of the body), when \<^verbatim>\<open>args.csv\<close> is not empty the \<^verbatim>\<open>finally\<close> block writes
  one file: the header \<^verbatim>\<open>["t_sec", "adc_0_1023"]\<close> and then one row
  \<open>(timestamp, raw value)\<close> for each reading delivered in the iterations that ran, in
  the order of acquisition.
\<close>

theorem export_rows:
  assumes "csv a \<noteq> []"
  shows "exported (snd (main w a t0 ks)) =
           Some ([''t_sec'', ''adc_0_1023''], acquired t0 (take (iterations w a t0 ks init) ks))"
proof -
  obtain why s where r: "run w a t0 ks init = (why, s)"
    by (cases "run w a t0 ks init")
  have "zip (ts s) (ys s) = acquired t0 (take (iterations w a t0 ks init) ks)"
    using run_init_rows [of w a t0 ks] r by simp
  then show ?thesis
    using assms r by (simp add: main_def finalize_def Let_def split: sum.splits)
qed

lemma append_sample_frames:
  "frames (append_sample t0 k s) = frames s \<and> last_redraw (append_sample t0 k s) = last_redraw s"
  by (simp add: append_sample_def split: option.splits)

lemma redraw_cases:
  "(frames (fst (redraw w a t s)) = frames s \<and> last_redraw (fst (redraw w a t s)) = last_redraw s) \<or>
   (\<exists>f. frames (fst (redraw w a t s)) = frames s @ [f] \<and> drawn_at f = t \<and>
        series f = (ts s, ys s) \<and> last_redraw (fst (redraw w a t s)) = t)"
  by (auto simp: redraw_def Let_def split: list.splits sum.splits prod.splits option.splits)

lemma redraw_paced:
  assumes "paced s" and "gate t s"
  shows "paced (fst (redraw w a t s))"
  using redraw_cases [of w a t s]
proof (elim disjE exE conjE)
  assume "frames (fst (redraw w a t s)) = frames s"
    and "last_redraw (fst (redraw w a t s)) = last_redraw s"
  with assms(1) show ?thesis by (simp add: paced_def)
next
  fix f
  assume f: "frames (fst (redraw w a t s)) = frames s @ [f]" "drawn_at f = t"
    "series f = (ts s, ys s)" "last_redraw (fst (redraw w a t s)) = t"
  have late: "1 / 10 < t - last_redraw s" and many: "3 \<le> length (ts s)"
    using assms(2) by (auto simp: gate_def)
  have old: "\<And>g. g \<in> set (frames s) \<Longrightarrow> drawn_at g \<le> last_redraw s"
    using assms(1) by (simp add: paced_def list_all_iff)
  have "sorted_wrt (\<lambda>f g. 1 / 10 < drawn_at g - drawn_at f) (frames s @ [f])"
    using assms(1) late old f(2) by (fastforce simp: paced_def sorted_wrt_append)
  moreover have "list_all (\<lambda>g. drawn_at g \<le> t) (frames s @ [f])"
    using late old f(2) by (fastforce simp: list_all_iff)
  moreover have "list_all (\<lambda>f. 3 \<le> length (fst (series f))) (frames s @ [f])"
    using assms(1) many f(3) by (simp add: paced_def)
  ultimately show ?thesis by (simp add: paced_def f)
qed

lemma loop_body_paced: "paced s \<Longrightarrow> paced (fst (loop_body w a t0 k s))"
proof -
  assume p: "paced s"
  have "paced (append_sample t0 k s)"
    using p append_sample_frames [of t0 k s] by (simp add: paced_def)
  then show ?thesis
    by (simp add: loop_body_def Let_def redraw_paced)
qed

lemma run_paced: "paced s \<Longrightarrow> paced (snd (run w a t0 ks s))"
proof (induction ks arbitrary: s)
  case Nil
  then show ?case by simp
next
  case (Cons k ks)
  obtain s1 e where b: "loop_body w a t0 k s = (s1, e)"
    by (cases "loop_body w a t0 k s")
  have "paced s1"
    using loop_body_paced [OF Cons.prems, of w a t0 k] b by simp
  then show ?case
    using b Cons.IH [of s1] by (auto split: option.splits)
qed

lemma init_paced: "paced init"
  by (simp add: paced_def init_def)

text \<open>
  Claim C7. In every run, any two frames drawn are more than 100 ms apart by the clock
  readings \<^verbatim>\<open>now\<close> of their iterations, every frame shows a buffer of at least three
  samples, and the buffer holds every reading delivered in the iterations that ran,
  whether the gate fired or not.
\<close>

theorem redraw_throttled:
  "case run w a t0 ks init of
     (why, s) \<Rightarrow>
       sorted_wrt (\<lambda>f g. 1 / 10 < drawn_at g - drawn_at f) (frames s) \<and>
       list_all (\<lambda>f. 3 \<le> length (fst (series f))) (frames s) \<and>
       zip (ts s) (ys s) = acquired t0 (take (iterations w a t0 ks init) ks)"
proof -
  obtain why s where r: "run w a t0 ks init = (why, s)"
    by (cases "run w a t0 ks init")
  have "paced s"
    using run_paced [OF init_paced, of w a t0 ks] r by simp
  moreover have "zip (ts s) (ys s) = acquired t0 (take (iterations w a t0 ks init) ks)"
    using run_init_rows [of w a t0 ks] r by simp
  ultimately show ?thesis
    using r by (simp add: paced_def)
qed

lemma upto_duration_Nil: "upto_duration d [] = []"
  by (simp add: upto_duration_def)

lemma run_reaches:
  assumes "\<And>yw fsw n. length (snd (w yw fsw n)) = length (fst (w yw fsw n))"
    and "length (ys s) = length (ts s)" and "length (bars s) = length BANDS"
    and "\<not> duration_reached a s"
  shows "fst (run w a t0 ks s) =
           (if duration a \<noteq> 0 \<and> list_ex (\<lambda>(t, y). duration a \<le> t) (acquired t0 ks)
            then DurationReached else Cancelled) \<and>
         ts (snd (run w a t0 ks s)) = ts s @ map fst (upto_duration (duration a) (acquired t0 ks)) \<and>
         ys (snd (run w a t0 ks s)) = ys s @ map snd (upto_duration (duration a) (acquired t0 ks))"
  using assms(2-)
proof (induction ks arbitrary: s)
  case Nil
  show ?case by (simp add: acquired_Nil upto_duration_Nil)
next
  case (Cons k ks)
  obtain s1 e where b: "loop_body w a t0 k s = (s1, e)"
    by (cases "loop_body w a t0 k s")
  have "snd (loop_body w a t0 k s) = None"
    by (rule loop_body_ok [OF assms(1) Cons.prems(1,2)])
  then have e: "e = None"
    using b by simp
  have "length (ys (fst (loop_body w a t0 k s))) = length (ts (fst (loop_body w a t0 k s)))"
    by (rule loop_body_lengths [OF Cons.prems(1)])
  then have len: "length (ys s1) = length (ts s1)" "length (bars s1) = length BANDS"
    using loop_body_bars_length [of w a t0 k s] Cons.prems(2) b by simp_all
  have buf: "ts s1 = ts (append_sample t0 k s)" "ys s1 = ys (append_sample t0 k s)"
    using loop_body_buffer [of w a t0 k s] b by simp_all
  show ?case
  proof (cases "reading k")
    case None
    then have same: "ts s1 = ts s" "ys s1 = ys s"
      using buf by (simp_all add: append_sample_def)
    then have nr: "\<not> duration_reached a s1"
      using Cons.prems(3) by (simp add: duration_reached_def)
    have acq: "acquired t0 (k # ks) = acquired t0 ks"
      using None by (simp add: acquired_Cons)
    show ?thesis
      using Cons.IH [OF len nr] b e nr same by (simp add: acq)
  next
    case (Some v)
    define t where "t = t_read k - t0"
    have app: "ts s1 = ts s @ [t]" "ys s1 = ys s @ [v * 1023]"
      using buf Some by (simp_all add: append_sample_def t_def)
    have acq: "acquired t0 (k # ks) = (t, v * 1023) # acquired t0 ks"
      using Some by (simp add: acquired_Cons t_def)
    have dr: "duration_reached a s1 \<longleftrightarrow> duration a \<noteq> 0 \<and> duration a \<le> t"
      by (simp add: duration_reached_def app)
    show ?thesis
    proof (cases "duration_reached a s1")
      case True
      then show ?thesis
        using b e app dr by (simp add: acq upto_duration_def not_less)
    next
      case False
      have "upto_duration (duration a) ((t, v * 1023) # acquired t0 ks) =
            (t, v * 1023) # upto_duration (duration a) (acquired t0 ks)"
        using False dr by (auto simp: upto_duration_def)
      then show ?thesis
        using Cons.IH [OF len False] b e False app dr by (auto simp: acq)
    qed
  qed
qed

text \<open>
  Claim C2, as the code has it. The test for the duration reads the timestamp of the
  newest sample, not the clock. With a PSD estimator that returns arrays of one length,
  the loop leaves by \<^verbatim>\<open>break\<close> exactly when the duration is not zero and a delivered
  sample has a timestamp of at least the duration, and then at the first such sample;
  otherwise it runs until the interrupt. With a duration of zero it never breaks.
\<close>

theorem break_at_first_sample_reaching_duration:
  assumes "\<And>yw fsw n. length (snd (w yw fsw n)) = length (fst (w yw fsw n))"
  shows "case run w a t0 ks init of
           (why, s) \<Rightarrow>
             why = (if duration a \<noteq> 0 \<and> list_ex (\<lambda>(t, y). duration a \<le> t) (acquired t0 ks)
                    then DurationReached else Cancelled) \<and>
             zip (ts s) (ys s) = upto_duration (duration a) (acquired t0 ks)"
proof -
  obtain why s where r: "run w a t0 ks init = (why, s)"
    by (cases "run w a t0 ks init")
  have nr: "\<not> duration_reached a init"
    by (simp add: duration_reached_def init_def)
  have len: "length (ys init) = length (ts init)" "length (bars init) = length BANDS"
    by (simp_all add: init_def)
  have "fst (run w a t0 ks init) =
           (if duration a \<noteq> 0 \<and> list_ex (\<lambda>(t, y). duration a \<le> t) (acquired t0 ks)
            then DurationReached else Cancelled) \<and>
         ts (snd (run w a t0 ks init)) =
           ts init @ map fst (upto_duration (duration a) (acquired t0 ks)) \<and>
         ys (snd (run w a t0 ks init)) =
           ys init @ map snd (upto_duration (duration a) (acquired t0 ks))"
    using assms len nr by (rule run_reaches)
  then have "why = (if duration a \<noteq> 0 \<and> list_ex (\<lambda>(t, y). duration a \<le> t) (acquired t0 ks)
                    then DurationReached else Cancelled)"
    and "ts s = map fst (upto_duration (duration a) (acquired t0 ks))"
    and "ys s = map snd (upto_duration (duration a) (acquired t0 ks))"
    using r by (simp_all add: init_def)
  then show ?thesis
    using r by (simp add: zip_map_fst_snd)
qed

lemmas run_eval = loop_body_def append_sample_def gate_def redraw_def rate_estimate_def
      window_select_def searchsorted_def bisect_left.simps spectral_step_def
      duration_reached_def init_def Let_def BANDS_def example_args_def example_ticks_def

theorem redraw_throttled_witness:
  "map drawn_at (frames (snd (run example_welch example_args 100 example_ticks init))) =
     [103, 10311 / 100] \<and>
   map (\<lambda>f. length (fst (series f)))
     (frames (snd (run example_welch example_args 100 example_ticks init))) = [3, 5] \<and>
   zip (ts (snd (run example_welch example_args 100 example_ticks init)))
     (ys (snd (run example_welch example_args 100 example_ticks init))) =
     [(1, 1023 / 2), (2, 1023), (3, 0), (153 / 50, 1023), (309 / 100, 1023)]"
proof -
  have i: "iterations example_welch example_args 100 example_ticks init = 6"
    by (simp add: run_eval)
  have f: "map drawn_at (frames (snd (run example_welch example_args 100 example_ticks init))) =
      [103, 10311 / 100]"
    "map (\<lambda>f. length (fst (series f)))
      (frames (snd (run example_welch example_args 100 example_ticks init))) = [3, 5]"
    by (simp_all add: run_eval)
  have a: "acquired 100 example_ticks =
      [(1, 1023 / 2), (2, 1023), (3, 0), (153 / 50, 1023), (309 / 100, 1023)]"
    by (simp add: acquired_def example_ticks_def)
  have k: "take 6 example_ticks = example_ticks"
    by (simp add: example_ticks_def)
  show ?thesis
    using redraw_throttled
      [where w = example_welch and a = example_args and ks = example_ticks and ?t0.0 = 100] f
    by (simp add: i k a split: prod.splits)
qed

theorem export_rows_witness:
  "csv (example_args\<lparr>duration := 2\<rparr>) \<noteq> [] \<and>
   main example_welch (example_args\<lparr>duration := 2\<rparr>) 100 example_ticks =
     (DurationReached,
      \<lparr>exported = Some ([''t_sec'', ''adc_0_1023''], [(1, 1023 / 2), (2, 1023)]),
       summary = Some (2, 1), released = True, raised = None\<rparr>) \<and>
   exported (snd (main example_welch example_args 100 example_ticks)) =
     Some ([''t_sec'', ''adc_0_1023''],
           [(1, 1023 / 2), (2, 1023), (3, 0), (153 / 50, 1023), (309 / 100, 1023)])"
proof -
  have c: "csv (example_args\<lparr>duration := 2\<rparr>) \<noteq> []" "csv example_args \<noteq> []"
    by (simp_all add: example_args_def)
  have i: "iterations example_welch example_args 100 example_ticks init = 6"
    by (simp add: run_eval)
  have a: "acquired 100 example_ticks =
      [(1, 1023 / 2), (2, 1023), (3, 0), (153 / 50, 1023), (309 / 100, 1023)]"
    by (simp add: acquired_def example_ticks_def)
  have k: "take 6 example_ticks = example_ticks"
    by (simp add: example_ticks_def)
  have m: "main example_welch (example_args\<lparr>duration := 2\<rparr>) 100 example_ticks =
     (DurationReached,
      \<lparr>exported = Some ([''t_sec'', ''adc_0_1023''], [(1, 1023 / 2), (2, 1023)]),
       summary = Some (2, 1), released = True, raised = None\<rparr>)"
    by (simp add: main_def finalize_def summary_rate_def run_eval)
  show ?thesis
    using export_rows
      [OF c(2), where w = example_welch and ks = example_ticks and ?t0.0 = 100] c(1) m
    by (simp add: i k a)
qed

theorem break_at_first_sample_reaching_duration_witness:
  "fst (run example_welch (example_args\<lparr>duration := 2\<rparr>) 100 example_ticks init) = DurationReached \<and>
   zip (ts (snd (run example_welch (example_args\<lparr>duration := 2\<rparr>) 100 example_ticks init)))
       (ys (snd (run example_welch (example_args\<lparr>duration := 2\<rparr>) 100 example_ticks init))) =
     [(1, 1023 / 2), (2, 1023)] \<and>
   fst (run example_welch example_args 100 example_ticks init) = Cancelled"
proof -
  have a: "acquired 100 example_ticks =
      [(1, 1023 / 2), (2, 1023), (3, 0), (153 / 50, 1023), (309 / 100, 1023)]"
    by (simp add: acquired_def example_ticks_def)
  have "case run example_welch (example_args\<lparr>duration := 2\<rparr>) 100 example_ticks init of
          (why, s) \<Rightarrow>
            why = (if duration (example_args\<lparr>duration := 2\<rparr>) \<noteq> 0 \<and>
                      list_ex (\<lambda>(t, y). duration (example_args\<lparr>duration := 2\<rparr>) \<le> t)
                        (acquired 100 example_ticks)
                   then DurationReached else Cancelled) \<and>
            zip (ts s) (ys s) =
              upto_duration (duration (example_args\<lparr>duration := 2\<rparr>)) (acquired 100 example_ticks)"
    by (rule break_at_first_sample_reaching_duration) (simp add: example_welch_def)
  moreover have "case run example_welch example_args 100 example_ticks init of
          (why, s) \<Rightarrow>
            why = (if duration example_args \<noteq> 0 \<and>
                      list_ex (\<lambda>(t, y). duration example_args \<le> t) (acquired 100 example_ticks)
                   then DurationReached else Cancelled) \<and>
            zip (ts s) (ys s) = upto_duration (duration example_args) (acquired 100 example_ticks)"
    by (rule break_at_first_sample_reaching_duration) (simp add: example_welch_def)
  ultimately show ?thesis
    by (simp add: a upto_duration_def example_args_def split: prod.splits)
qed

text \<open>
  Claim C2 as stated fails when the board delivers no reading: with a duration of one
  second and the clock five and six seconds after the start of the loop, the loop is
  still running when the interrupt arrives.
\<close>

theorem duration_elapsed_counterexample:
  "0 < duration (example_args\<lparr>duration := 1\<rparr>) \<and>
   duration (example_args\<lparr>duration := 1\<rparr>) \<le> now \<lparr>reading = None, t_read = 5, now = 5\<rparr> - 0 \<and>
   run example_welch (example_args\<lparr>duration := 1\<rparr>) 0
     [\<lparr>reading = None, t_read = 5, now = 5\<rparr>,
      \<lparr>reading = None, t_read = 6, now = 6\<rparr>] init =
   (Cancelled, init)"
  by (simp add: run_eval)

end
